theory Spec2Isabelle
  imports Complex_Main "HOL-Library.Word"
begin

unbundle bit_operations_syntax

section \<open>Bytes and errors\<close>

text \<open>
  A Python \<open>bytes\<close> object is a sequence of integers in \<open>0..255\<close>; it is modelled as
  a list of 8-bit words. Every operation the codec applies to such a value (XOR with a
  byte, addition followed by \<open>& 255\<close>) stays inside that range, so the list of ints
  made by \<open>list(data)\<close> is the same list of words.
\<close>

type_synonym u8 = "8 word"

text \<open>The messages of the \<open>ValueError\<close>s the code raises or lets escape.\<close>

datatype verr =
    Bad_Checksum
  | Bad_packet
  | Not_a_valid_COMPONENT
  | Not_a_valid_OPERATION
  | Not_a_valid_MODE
  | Not_a_valid_FANSPEED
  | Bytes_must_be_in_range

datatype error =
    IndexError
  | ValueError verr
  | TypeError
  | OverflowError
  | ImportError
  | CallbackRaised
  | PanasonicHCException

text \<open>\<open>int.to_bytes()\<close> with its defaults (one byte, big endian).\<close>

definition to_bytes :: "int \<Rightarrow> error + u8 list" where
  "to_bytes n = (if 0 \<le> n \<and> n \<le> 255 then Inr [word_of_int n] else Inl OverflowError)"

section \<open>Obfuscation transform\<close>

text \<open>\<open>_cksum\<close>: the loop \<open>cksum = (cksum + i) & 255\<close> from 0.\<close>

definition cksum :: "u8 list \<Rightarrow> u8" where
  "cksum data = foldl (\<lambda>c i. (c + i) AND 255) 0 data"

text \<open>The slice \<open>data[1:-1]\<close>.\<close>

definition interior :: "'a list \<Rightarrow> 'a list" where
  "interior data = butlast (tl data)"

text \<open>One assignment \<open>data[x] = data[x] ^ data[x - 1]\<close>.\<close>

definition chain_step :: "u8 list \<Rightarrow> nat \<Rightarrow> u8 list" where
  "chain_step data x = data[x := (data ! x) XOR (data ! (x - 1))]"

text \<open>\<open>for x in range(len(data)): data[x] = data[x] ^ 105\<close>.\<close>

definition whiten :: "u8 list \<Rightarrow> u8 list" where
  "whiten data = foldl (\<lambda>d x. d[x := (d ! x) XOR 105]) data [0..<length data]"

text \<open>\<open>for x in range(len(data) - 1, 0, -1)\<close>: the indices \<open>len - 1\<close> down to 1.\<close>

definition unchain :: "u8 list \<Rightarrow> u8 list" where
  "unchain data = foldl chain_step data (rev [1..<length data])"

text \<open>\<open>for x in range(1, len(data))\<close>: the indices 1 up to \<open>len - 1\<close>.\<close>

definition chain :: "u8 list \<Rightarrow> u8 list" where
  "chain data = foldl chain_step data [1..<length data]"

text \<open>
  \<open>_decode\<close>. On the empty list the two loops do nothing and \<open>data[0]\<close> raises
  IndexError. \<open>data[-1]\<close> is the last element of a non-empty list.
\<close>

definition decode :: "u8 list \<Rightarrow> error + u8 list" where
  "decode data0 =
     (let data = unchain (whiten data0) in
      if data = [] then Inl IndexError
      else
        let data = data[0 := (data ! 0) XOR 202] in
        if cksum (interior data) \<noteq> last data then Inl (ValueError Bad_Checksum)
        else Inr data)"

text \<open>
  \<open>_encode\<close>. The assignment \<open>data[-1] = ...\<close> raises IndexError on the empty list.
\<close>

definition encode :: "u8 list \<Rightarrow> error + u8 list" where
  "encode data0 =
     (if data0 = [] then Inl IndexError
      else
        let data = data0[length data0 - 1 := cksum (interior data0)];
            data = data[0 := (data ! 0) XOR 202];
            data = chain data
        in Inr (whiten data))"

section \<open>Enumerations\<close>

datatype MODE = heat | cool | fan_only | dry | auto

fun MODE_value :: "MODE \<Rightarrow> int" where
  "MODE_value heat = 1"
| "MODE_value cool = 2"
| "MODE_value fan_only = 3"
| "MODE_value dry = 4"
| "MODE_value auto = 5"

text \<open>The call \<open>MODE(v)\<close>: lookup by value, ValueError when no member has it.\<close>

definition MODE_of :: "u8 \<Rightarrow> error + MODE" where
  "MODE_of v =
     (if v = 1 then Inr heat else if v = 2 then Inr cool else if v = 3 then Inr fan_only
      else if v = 4 then Inr dry else if v = 5 then Inr auto
      else Inl (ValueError Not_a_valid_MODE))"

datatype FANSPEED = fan_auto | high | medium | low

fun FANSPEED_value :: "FANSPEED \<Rightarrow> int" where
  "FANSPEED_value fan_auto = 2"
| "FANSPEED_value high = 3"
| "FANSPEED_value medium = 4"
| "FANSPEED_value low = 5"

definition FANSPEED_of :: "u8 \<Rightarrow> error + FANSPEED" where
  "FANSPEED_of v =
     (if v = 2 then Inr fan_auto else if v = 3 then Inr high else if v = 4 then Inr medium
      else if v = 5 then Inr low
      else Inl (ValueError Not_a_valid_FANSPEED))"

datatype COMPONENT = I_UNIT1 | O_UNIT1 | ALL_UNITS | APP | BLE_MODULE_UART

fun COMPONENT_value :: "COMPONENT \<Rightarrow> int" where
  "COMPONENT_value I_UNIT1 = 1"
| "COMPONENT_value O_UNIT1 = 9"
| "COMPONENT_value ALL_UNITS = 247"
| "COMPONENT_value APP = 249"
| "COMPONENT_value BLE_MODULE_UART = 254"


datatype OPERATION = SET | SET_RES | REQ | REQ_RES | NOTIFY

fun OPERATION_value :: "OPERATION \<Rightarrow> int" where
  "OPERATION_value SET = 0"
| "OPERATION_value SET_RES = 1"
| "OPERATION_value REQ = 2"
| "OPERATION_value REQ_RES = 3"
| "OPERATION_value NOTIFY = 4"


section \<open>Helpers for Python semantics\<close>

text \<open>Sequencing of two steps either of which may raise: the first exception wins.\<close>

definition andthen :: "error + 'a \<Rightarrow> ('a \<Rightarrow> error + 'b) \<Rightarrow> error + 'b" where
  "andthen m f = (case m of Inl e \<Rightarrow> Inl e | Inr x \<Rightarrow> f x)"

text \<open>
  Subscript \<open>xs[i]\<close> with a constant index: a negative index counts from the end, and an
  index outside the sequence raises IndexError.
\<close>

definition getitem :: "'a list \<Rightarrow> int \<Rightarrow> error + 'a" where
  "getitem xs i =
     (let k = (if i < 0 then int (length xs) + i else i) in
      if 0 \<le> k \<and> k < int (length xs) then Inr (xs ! nat k) else Inl IndexError)"

text \<open>
  A \<open>BytesIO\<close> reader is the list of bytes not yet consumed. \<open>fd.read(1)[0]\<close> takes
  one byte, or raises IndexError on an exhausted reader (the subscript of \<open>b''\<close>).
  \<open>fd.read(n)\<close> returns at most \<open>n\<close> bytes, fewer when the reader holds fewer, and
  never raises.
\<close>

definition read1 :: "u8 list \<Rightarrow> error + (u8 \<times> u8 list)" where
  "read1 fd = (case fd of [] \<Rightarrow> Inl IndexError | b # rest \<Rightarrow> Inr (b, rest))"

definition read_n :: "nat \<Rightarrow> u8 list \<Rightarrow> u8 list \<times> u8 list" where
  "read_n n fd = (take n fd, drop n fd)"



section \<open>Packets\<close>

text \<open>
  The class \<open>PanasonicBLEPacket\<close> and its subclass \<open>PanasonicBLEPacketStatus\<close>. The
  type is whatever int the constructor was given; the payload is a bytes object. The
  status fields are the attributes set by the subclass constructor: \<open>power\<close> and
  \<open>powersave\<close> are ints taken from payload bytes, the two temperatures are halves
  of integers (the quotient \<open>/ 2\<close> of a small integer is exact). \<open>power\<close> is written
  \<open>power'\<close> here. The third class, \<open>PanasonicBLEPacketOutdoorTemp\<close>, has no
  constructor below because no instance of it can be made: see its \<open>__init__\<close>.
\<close>

datatype packet =
    PanasonicBLEPacket (ptype: int) (pdata: "u8 list")
  | PanasonicBLEPacketStatus (ptype: int) (pdata: "u8 list")
      (curtemp: rat) (power': u8) (mode: MODE) (temp: rat) (fanspeed: FANSPEED) (powersave: u8)

definition half_degrees :: "u8 \<Rightarrow> rat" where
  "half_degrees b = of_int (uint b - 70) / 2"

text \<open>
  \<open>PanasonicBLEPacketStatus.__init__\<close>, statement by statement, so that the first
  failing subscript or enum lookup decides the exception.
\<close>

definition PanasonicBLEPacketStatus_init :: "int \<Rightarrow> u8 list \<Rightarrow> error + packet" where
  "PanasonicBLEPacketStatus_init pt pd =
     andthen (getitem pd 0) (\<lambda>b0.
     andthen (MODE_of (drop_bit 5 b0 AND 7)) (\<lambda>m.
     andthen (getitem pd 4) (\<lambda>b4.
     andthen (getitem pd 1) (\<lambda>b1.
     andthen (FANSPEED_of (drop_bit 5 b1 AND 7)) (\<lambda>f.
     andthen (getitem pd (- 6)) (\<lambda>ps.
     andthen (if length pd > 12
              then andthen (getitem pd 5) (\<lambda>b5. Inr (half_degrees b5))
              else Inr 0) (\<lambda>cur.
     Inr (PanasonicBLEPacketStatus pt pd cur (b0 AND 1) m (half_degrees b4) f ps))))))))"

text \<open>
  \<open>PanasonicBLEPacketOutdoorTemp.__init__(self)\<close> declares no parameter besides
  \<open>self\<close>; the call \<open>PanasonicBLEPacketOutdoorTemp(ptype, pdata)\<close> made by
  \<open>parse\<close> passes two, which raises TypeError before the body runs.
\<close>

definition PanasonicBLEPacketOutdoorTemp_init :: "int \<Rightarrow> u8 list \<Rightarrow> error + packet" where
  "PanasonicBLEPacketOutdoorTemp_init pt pd = Inl TypeError"

text \<open>\<open>PanasonicBLEPacket.parse\<close>: returns the packet and the reader after it.\<close>

definition Packet_parse :: "u8 list \<Rightarrow> error + (packet \<times> u8 list)" where
  "Packet_parse fd0 =
     andthen (read1 fd0) (\<lambda>(pt, fd1).
     andthen (read1 fd1) (\<lambda>(plen, fd2).
       let (pd, fd3) = read_n (unat plen) fd2 in
       if pt = 129 then
         andthen (PanasonicBLEPacketStatus_init (uint pt) pd) (\<lambda>p. Inr (p, fd3))
       else if pt = 33 then
         andthen (PanasonicBLEPacketOutdoorTemp_init (uint pt) pd) (\<lambda>p. Inr (p, fd3))
       else Inr (PanasonicBLEPacket (uint pt) pd, fd3)))"

text \<open>\<open>PanasonicBLEPacket.encode\<close>, inherited by the status class.\<close>

definition Packet_encode :: "packet \<Rightarrow> error + u8 list" where
  "Packet_encode p =
     andthen (to_bytes (ptype p)) (\<lambda>t.
     andthen (to_bytes (int (length (pdata p)))) (\<lambda>l.
     Inr (t @ l @ pdata p)))"

section \<open>Parcels\<close>

record parcel =
  src :: COMPONENT
  dst :: COMPONENT
  op :: OPERATION
  packets :: "packet list"



text \<open>The loop \<open>for p in self.packets: fd.write(p.encode())\<close>.\<close>

fun encode_packets :: "packet list \<Rightarrow> error + u8 list" where
  "encode_packets [] = Inr []"
| "encode_packets (p # ps) =
     andthen (Packet_encode p) (\<lambda>b.
     andthen (encode_packets ps) (\<lambda>bs.
     Inr (b @ bs)))"

text \<open>
  The five bytes written by \<open>PanasonicBLEParcel.encode\<close> before it turns to the
  packets: sync byte, source, destination, operation and packet count.
\<close>

definition Parcel_header :: "parcel \<Rightarrow> error + u8 list" where
  "Parcel_header p =
     andthen (to_bytes (COMPONENT_value (src p))) (\<lambda>s.
     andthen (to_bytes (COMPONENT_value (dst p))) (\<lambda>d.
     andthen (to_bytes (OPERATION_value (op p))) (\<lambda>oper.
     andthen (to_bytes (int (length (packets p)))) (\<lambda>n.
     Inr ([0x11] @ s @ d @ oper @ n)))))"

text \<open>The value of \<open>fd.getvalue()\<close> at the end of \<open>PanasonicBLEParcel.encode\<close>.\<close>

definition Parcel_plain :: "parcel \<Rightarrow> error + u8 list" where
  "Parcel_plain p =
     andthen (Parcel_header p) (\<lambda>h.
     andthen (encode_packets (packets p)) (\<lambda>body.
     Inr (h @ body @ [0x00])))"

definition Parcel_encode :: "parcel \<Rightarrow> error + u8 list" where
  "Parcel_encode p = andthen (Parcel_plain p) encode"

section \<open>Command builders\<close>



section \<open>Session layer\<close>

text \<open>
  The import statement at the top of \<open>panasonic_hc.py\<close>:
  \<open>from .panasonic_hc_proto import (...)\<close> binds each listed name to the attribute of
  that name in the module, and raises ImportError at the first name the module does not
  define. \<open>proto_names\<close> are the names bound at the top level of
  \<open>panasonic_hc_proto.py\<close>, \<open>hc_imports\<close> the names the session module asks for.
\<close>

definition proto_names :: "string list" where
  "proto_names =
     [''Enum'', ''io'', ''_cksum'', ''_decode'', ''_encode'', ''MODE'', ''FANSPEED'',
      ''PanasonicBLEParcel'', ''PanasonicBLEMode'', ''PanasonicBLEEnergySaving'',
      ''PanasonicBLEPower'', ''PanasonicBLEStatusReq'', ''PanasonicBLETemp'',
      ''PanasonicBLEOuting'']"

definition hc_imports :: "string list" where
  "hc_imports =
     [''FANSPEED'', ''MODE'', ''PanasonicBLEEnergySaving'', ''PanasonicBLEFanMode'',
      ''PanasonicBLEMode'', ''PanasonicBLEParcel'', ''PanasonicBLEPower'',
      ''PanasonicBLEStatusReq'', ''PanasonicBLETemp'']"

fun import_from :: "string list \<Rightarrow> string list \<Rightarrow> error + unit" where
  "import_from defined [] = Inr ()"
| "import_from defined (n # ns) =
     (if n \<in> set defined then import_from defined ns else Inl ImportError)"













section \<open>Facts about the obfuscation transform\<close>

lemma and255: "(x::u8) AND 255 = x"
proof -
  have "(255::u8) = - 1" by simp
  then show ?thesis by (simp only: and.right_neutral)
qed

lemma xor_twice: "(a XOR b) XOR b = (a::u8)"
  by (simp add: xor.assoc)

lemma xor_eq_0_iff: "a XOR b = 0 \<longleftrightarrow> a = (b::u8)"
proof
  assume "a XOR b = 0"
  then have "(a XOR b) XOR b = 0 XOR b" by simp
  then show "a = b" by (simp only: xor_twice xor.left_neutral)
qed simp

lemma xor_a_163: "(a XOR 105) XOR 202 = a XOR (163::u8)"
  by (simp add: xor.assoc)

lemma xor_105_105: "(b XOR 105) XOR (a XOR 105) = b XOR (a::u8)"
proof -
  have "(b XOR 105) XOR (a XOR 105) = ((b XOR a) XOR 105) XOR 105"
    by (simp only: xor.assoc xor.left_commute xor.commute)
  then show ?thesis by (simp only: xor_twice)
qed

lemma cksum_sum: "cksum data = sum_list data"
proof -
  have "foldl (\<lambda>c i. (c + i) AND 255) a data = a + sum_list data" for a :: u8
    by (induction data arbitrary: a) (simp_all add: add.assoc and255)
  then show ?thesis by (simp add: cksum_def)
qed

lemma whiten_aux:
  "k \<le> length d \<Longrightarrow>
   foldl (\<lambda>d x. d[x := (d ! x) XOR 105]) d [0..<k] =
     map (\<lambda>b. b XOR (105::u8)) (take k d) @ drop k d"
proof (induction k)
  case 0 then show ?case by simp
next
  case (Suc k)
  then have k: "k < length d" by simp
  let ?w = "map (\<lambda>b. b XOR 105) (take k d) @ drop k d"
  have "foldl (\<lambda>d x. d[x := (d ! x) XOR 105]) d [0..<Suc k] = ?w[k := (?w ! k) XOR 105]"
    using Suc by simp
  also have "\<dots> = map (\<lambda>b. b XOR 105) (take (Suc k) d) @ drop (Suc k) d"
    using k by (simp add: list_update_append nth_append take_Suc_conv_app_nth
        Cons_nth_drop_Suc [symmetric])
  finally show ?case .
qed

lemma whiten_map: "whiten d = map (\<lambda>b. b XOR 105) d"
  using whiten_aux [of "length d" d] by (simp add: whiten_def)

lemma whiten_whiten: "whiten (whiten d) = d"
  by (simp add: whiten_map xor_twice comp_def)

lemma length_chain_step [simp]: "length (chain_step d x) = length d"
  by (simp add: chain_step_def)

text \<open>
  The backward loop of \<open>_decode\<close> reads \<open>data[x - 1]\<close> before it is overwritten:
  every byte but the first becomes the XOR of two neighbouring input bytes.
\<close>

lemma unchain_aux:
  "k \<le> length d \<Longrightarrow>
   length (foldl chain_step d (rev [1..<k])) = length d \<and>
   (\<forall>i < length d. foldl chain_step d (rev [1..<k]) ! i =
      (if 1 \<le> i \<and> i < k then (d ! i) XOR (d ! (i - 1)) else d ! i))"
proof (induction k arbitrary: d)
  case 0 then show ?case by simp
next
  case (Suc k)
  show ?case
  proof (cases "k = 0")
    case True then show ?thesis by simp
  next
    case False
    then have r: "rev [1..<Suc k] = k # rev [1..<k]" by simp
    have kl: "k \<le> length (chain_step d k)" using Suc.prems by simp
    from Suc.IH [OF kl] Suc.prems False show ?thesis
      unfolding r by (auto simp: chain_step_def nth_list_update less_Suc_eq)
  qed
qed

lemma length_unchain [simp]: "length (unchain d) = length d"
  using unchain_aux [of "length d" d] by (simp add: unchain_def)

lemma unchain_nth:
  "i < length d \<Longrightarrow> unchain d ! i = (if 1 \<le> i then (d ! i) XOR (d ! (i - 1)) else d ! i)"
  using unchain_aux [of "length d" d] by (simp add: unchain_def)

text \<open>
  The forward loop of \<open>_encode\<close> reads the byte it has just written: every output
  byte but the first is the input byte XOR the previous output byte.
\<close>

lemma chain_aux:
  "k \<le> length d \<Longrightarrow>
   length (foldl chain_step d [1..<k]) = length d \<and>
   (\<forall>i < length d. foldl chain_step d [1..<k] ! i =
      (if 1 \<le> i \<and> i < k then (d ! i) XOR (foldl chain_step d [1..<k] ! (i - 1))
       else d ! i))"
proof (induction k)
  case 0 then show ?case by simp
next
  case (Suc k)
  show ?case
  proof (cases "k = 0")
    case True then show ?thesis by simp
  next
    case False
    define F where "F = foldl chain_step d [1..<k]"
    define G where "G = foldl chain_step d [1..<Suc k]"
    from False have "[1..<Suc k] = [1..<k] @ [k]" by simp
    then have G: "G = F[k := (F ! k) XOR (F ! (k - 1))]"
      by (simp add: F_def G_def chain_step_def)
    from Suc have lenF: "length F = length d"
      and F: "\<And>i. i < length d \<Longrightarrow>
            F ! i = (if 1 \<le> i \<and> i < k then (d ! i) XOR (F ! (i - 1)) else d ! i)"
      by (simp_all add: F_def)
    have k: "k < length d" using Suc.prems by simp
    have "G ! i = (if 1 \<le> i \<and> i < Suc k then (d ! i) XOR (G ! (i - 1)) else d ! i)"
      if i: "i < length d" for i
    proof (cases "i = k")
      case True
      have "G ! k = (F ! k) XOR (F ! (k - 1))" using k lenF by (simp add: G)
      moreover have "F ! k = d ! k" using F [OF k] by simp
      moreover have "G ! (k - 1) = F ! (k - 1)" using False by (simp add: G)
      ultimately show ?thesis using True False by simp
    next
      case neq: False
      then have Gi: "G ! i = F ! i" by (simp add: G)
      show ?thesis
      proof (cases "1 \<le> i \<and> i < k")
        case True
        then have "i - 1 \<noteq> k" by arith
        then have "G ! (i - 1) = F ! (i - 1)" by (simp add: G)
        with Gi F [OF i] True show ?thesis by simp
      next
        case False
        with Gi F [OF i] neq show ?thesis by auto
      qed
    qed
    moreover have "length G = length d" using lenF by (simp add: G)
    ultimately show ?thesis unfolding G_def by blast
  qed
qed

lemma length_chain [simp]: "length (chain d) = length d"
  using chain_aux [of "length d" d] by (simp add: chain_def)

lemma chain_nth:
  "i < length d \<Longrightarrow>
   chain d ! i = (if 1 \<le> i then (d ! i) XOR (chain d ! (i - 1)) else d ! i)"
  using chain_aux [of "length d" d] by (simp add: chain_def)

lemma unchain_chain: "unchain (chain d) = d"
proof (rule nth_equalityI)
  show "length (unchain (chain d)) = length d" by simp
next
  fix i assume "i < length (unchain (chain d))"
  then have i: "i < length d" by simp
  show "unchain (chain d) ! i = d ! i"
  proof (cases "1 \<le> i")
    case True
    with i have "unchain (chain d) ! i = (chain d ! i) XOR (chain d ! (i - 1))"
      by (simp add: unchain_nth)
    also have "chain d ! i = (d ! i) XOR (chain d ! (i - 1))"
      using i True by (simp add: chain_nth [of i d])
    finally show ?thesis by (simp add: xor_twice)
  next
    case False
    with i show ?thesis by (simp add: unchain_nth chain_nth [of i d])
  qed
qed

lemma upt_1_2: "[1..<2] = [1::nat]"
  by (simp add: upt_rec)

lemma upt_0_2: "[0..<2] = [0, 1::nat]"
  by (simp add: upt_rec)

section \<open>Facts about the packet codec\<close>

lemma Packet_parse_short: "length fd < 2 \<Longrightarrow> Packet_parse fd = Inl IndexError"
  by (cases fd; cases "tl fd") (simp_all add: Packet_parse_def read1_def andthen_def)

lemma Packet_parse_generic:
  "pt \<noteq> 129 \<Longrightarrow> pt \<noteq> 33 \<Longrightarrow>
   Packet_parse (pt # plen # rest) =
     Inr (PanasonicBLEPacket (uint pt) (take (unat plen) rest), drop (unat plen) rest)"
  by (simp add: Packet_parse_def read1_def read_n_def andthen_def)

lemma status_init_fields:
  "PanasonicBLEPacketStatus_init pt pd = Inr p \<Longrightarrow> ptype p = pt \<and> pdata p = pd"
  by (auto simp: PanasonicBLEPacketStatus_init_def andthen_def split: sum.splits if_splits)

lemma Packet_parse_Inr:
  "Packet_parse (pt # plen # rest) = Inr (p, fd') \<Longrightarrow>
   ptype p = uint pt \<and> pdata p = take (unat plen) rest \<and> fd' = drop (unat plen) rest"
  by (auto simp: Packet_parse_def read1_def read_n_def andthen_def
      PanasonicBLEPacketOutdoorTemp_init_def
      dest: status_init_fields split: if_splits sum.splits)

section \<open>Facts about the parcel codec and the session\<close>

lemma interior_update_last: "interior (P[length P - 1 := v]) = interior P"
proof (cases P rule: rev_cases)
  case Nil then show ?thesis by simp
next
  case (snoc ys y)
  then show ?thesis by (cases ys) (simp_all add: interior_def)
qed

lemma encode_Inr: "P \<noteq> [] \<Longrightarrow> \<exists>c. encode P = Inr c \<and> length c = length P"
  by (simp add: encode_def Let_def whiten_map)

lemma decode_encode:
  assumes "P \<noteq> []" and "encode P = Inr c"
  shows "decode c = Inr (P[length P - 1 := cksum (interior P)])"
proof -
  define P' where "P' = P[length P - 1 := cksum (interior P)]"
  define D where "D = P'[0 := (P' ! 0) XOR 202]"
  have c: "c = whiten (chain D)"
    using assms by (simp add: encode_def Let_def D_def P'_def)
  have ne: "P' \<noteq> []" "D \<noteq> []" using assms by (simp_all add: P'_def D_def)
  have u: "unchain (whiten c) = D" by (simp add: c whiten_whiten unchain_chain)
  have undo: "D[0 := (D ! 0) XOR 202] = P'"
    using ne by (simp add: D_def xor_twice)
  have "last P' = cksum (interior P)"
    using assms by (simp add: P'_def last_list_update)
  moreover have "interior P' = interior P"
    unfolding P'_def by (rule interior_update_last)
  ultimately have ck: "cksum (interior P') = last P'" by simp
  have "decode c = Inr P'"
    using ne ck by (simp add: decode_def u undo Let_def)
  then show ?thesis by (simp only: P'_def)
qed

lemma to_bytes_COMPONENT: "to_bytes (COMPONENT_value x) = Inr [word_of_int (COMPONENT_value x)]"
  by (cases x) (simp_all add: to_bytes_def)

lemma to_bytes_OPERATION: "to_bytes (OPERATION_value x) = Inr [word_of_int (OPERATION_value x)]"
  by (cases x) (simp_all add: to_bytes_def)

lemma to_bytes_count: "n \<le> 255 \<Longrightarrow> to_bytes (int n) = Inr [of_nat n]"
  by (simp add: to_bytes_def)

lemma Parcel_header_ok:
  "length (packets p) \<le> 255 \<Longrightarrow>
   Parcel_header p = Inr [0x11, word_of_int (COMPONENT_value (src p)),
      word_of_int (COMPONENT_value (dst p)), word_of_int (OPERATION_value (op p)),
      of_nat (length (packets p))]"
  by (simp add: Parcel_header_def to_bytes_COMPONENT to_bytes_OPERATION andthen_def to_bytes_count)

lemma to_bytes_overflow: "255 < n \<Longrightarrow> to_bytes (int n) = Inl OverflowError"
  by (simp add: to_bytes_def)

lemma Parcel_header_overflow:
  "255 < length (packets p) \<Longrightarrow> Parcel_header p = Inl OverflowError"
  by (simp add: Parcel_header_def to_bytes_COMPONENT to_bytes_OPERATION andthen_def to_bytes_overflow)

lemma unat_count: "n \<le> 255 \<Longrightarrow> unat (of_nat n :: u8) = n"
  by (simp add: unat_of_nat)

lemma encode_packets_ok:
  "list_all (\<lambda>q. 0 \<le> ptype q \<and> ptype q \<le> 255 \<and> length (pdata q) \<le> 255) ps \<Longrightarrow>
   encode_packets ps =
     Inr (concat (map (\<lambda>q. word_of_int (ptype q) # of_nat (length (pdata q)) # pdata q) ps))"
  by (induction ps) (simp_all add: Packet_encode_def to_bytes_def andthen_def)




section \<open>Facts for the round trip\<close>








section \<open>Facts for single-bit flips\<close>

lemma flip_pow: "(x::u8) XOR 2 ^ k = (if bit x k then x - 2 ^ k else x + 2 ^ k)"
proof -
  have "x XOR 2 ^ k = flip_bit k x" by (simp add: flip_bit_eq_xor)
  then show ?thesis by (simp add: flip_bit_eq_if set_bit_eq unset_bit_eq)
qed

lemma pow_ne0: "k < 8 \<Longrightarrow> (2::u8) ^ k \<noteq> 0"
  by simp

lemma pow_double: "k < 8 \<Longrightarrow> (2::u8) ^ k + 2 ^ k = 0 \<longleftrightarrow> k = 7"
proof -
  assume k: "k < 8"
  have "(2::u8) ^ k + 2 ^ k = 2 ^ Suc k" by simp
  then have "(2::u8) ^ k + 2 ^ k = 0 \<longleftrightarrow> 8 \<le> Suc k" by (simp only: exp_eq_zero_iff) simp
  with k show ?thesis by auto
qed

lemma word_cancel1: "(s::u8) + d = s \<longleftrightarrow> d = 0"
  by simp

lemma flip_two_sum:
  assumes k: "k < 8"
  shows "(s - a + (a XOR 2 ^ k) - b + (b XOR 2 ^ k) \<noteq> (s::u8)) \<longleftrightarrow>
         (k < 7 \<and> bit a k = bit b k)"
proof -
  let ?m = "2 ^ k :: u8"
  have d: "?m + ?m = 0 \<longleftrightarrow> k = 7" using k by (rule pow_double)
  have 1: "s - a + (a + ?m) - b + (b + ?m) = s + (?m + ?m)" by simp
  have 2: "s - a + (a - ?m) - b + (b - ?m) = s - (?m + ?m)" by simp
  have 3: "s - a + (a + ?m) - b + (b - ?m) = s" by simp
  have 4: "s - a + (a - ?m) - b + (b + ?m) = s" by simp
  have 5: "s - (?m + ?m) = s \<longleftrightarrow> ?m + ?m = 0" by simp
  have 6: "s + (?m + ?m) = s \<longleftrightarrow> ?m + ?m = 0" by simp
  show ?thesis
    using k d by (auto simp only: flip_pow 1 2 3 4 5 6 split: if_splits)
qed

lemma flip_sum_vs_last:
  assumes k: "k < 8"
  shows "(s - a + (a XOR 2 ^ k) \<noteq> (s::u8) XOR 2 ^ k) \<longleftrightarrow> (k < 7 \<and> bit a k \<noteq> bit s k)"
proof -
  let ?m = "2 ^ k :: u8"
  have d: "?m + ?m = 0 \<longleftrightarrow> k = 7" using k by (rule pow_double)
  have 1: "s - a + (a + ?m) = s + ?m" by simp
  have 2: "s - a + (a - ?m) = s - ?m" by simp
  have "s + ?m = s - ?m \<longleftrightarrow> s + (?m + ?m) = s"
    by (simp only: eq_diff_eq add.assoc)
  then have 3: "s + ?m = s - ?m \<longleftrightarrow> ?m + ?m = 0"
    by (simp only: word_cancel1)
  have 4: "s - ?m = s + ?m \<longleftrightarrow> ?m + ?m = 0" using 3 by auto
  show ?thesis
    using k d by (auto simp only: flip_pow 1 2 3 4 split: if_splits)
qed

lemma flip_changes: "k < 8 \<Longrightarrow> (x::u8) XOR 2 ^ k \<noteq> x"
proof
  assume k: "k < 8" and "x XOR 2 ^ k = x"
  then have "(x XOR 2 ^ k) XOR x = 0" by simp
  then have "(2::u8) ^ k = 0" by (simp add: xor.commute xor.left_commute)
  with k show False by simp
qed

lemma flip_one_sum: "k < 8 \<Longrightarrow> s - a + (a XOR 2 ^ k) \<noteq> (s::u8)"
proof -
  assume k: "k < 8"
  have "s - a + (a XOR 2 ^ k) = s + ((a XOR 2 ^ k) - a)" by simp
  then have "s - a + (a XOR 2 ^ k) = s \<longleftrightarrow> (a XOR 2 ^ k) - a = 0"
    by (simp only: word_cancel1)
  with flip_changes [OF k, of a] show ?thesis by simp
qed

lemma sum_list_update_u8:
  "i < length ys \<Longrightarrow> sum_list (ys[i := v]) = sum_list ys - ys ! i + (v::u8)"
proof (induction ys arbitrary: i)
  case Nil then show ?case by simp
next
  case (Cons y ys)
  then show ?case by (cases i) simp_all
qed

lemma length_interior [simp]: "length (interior xs) = length xs - 2"
  by (simp add: interior_def)

lemma interior_nth: "i < length xs - 2 \<Longrightarrow> interior xs ! i = xs ! Suc i"
  by (simp add: interior_def nth_butlast nth_tl)

lemma interior_update_0: "interior (xs[0 := v]) = interior xs"
  by (cases xs) (simp_all add: interior_def)

lemma interior_update_Suc: "interior (xs[Suc i := v]) = (interior xs)[i := v]"
  by (cases xs) (simp_all add: interior_def butlast_list_update list_update_beyond)

lemma xor3: "((a XOR m) XOR b) = (a XOR b) XOR (m::u8)"
  by (simp add: xor.assoc xor.commute xor.left_commute)

lemma xor4: "(a XOR (b XOR m)) = (a XOR b) XOR (m::u8)"
  by (simp add: xor.assoc)

text \<open>What \<open>_decode\<close> computes before it compares the checksum.\<close>

lemma deob_nth:
  assumes "i < length c"
  shows "(unchain (whiten c))[0 := (unchain (whiten c) ! 0) XOR 202] ! i =
         (if i = 0 then (c ! 0) XOR 163 else (c ! i) XOR (c ! (i - 1)))"
proof (cases "i = 0")
  case True
  with assms show ?thesis
    by (simp add: unchain_nth whiten_map xor_a_163)
next
  case False
  with assms show ?thesis
    by (simp add: unchain_nth whiten_map xor_105_105)
qed

lemma decode_by_relation:
  fixes Q c :: "u8 list"
  assumes ne: "c \<noteq> []" and len: "length Q = length c"
    and rel: "\<And>i. i < length c \<Longrightarrow>
            Q ! i = (if i = 0 then (c ! 0) XOR 163 else (c ! i) XOR (c ! (i - 1)))"
  shows "decode c = (if sum_list (interior Q) \<noteq> last Q then Inl (ValueError Bad_Checksum)
                     else Inr Q)"
proof -
  let ?D = "(unchain (whiten c))[0 := (unchain (whiten c) ! 0) XOR 202]"
  have "?D = Q"
  proof (rule nth_equalityI)
    show "length ?D = length Q" by (simp add: len whiten_map)
  next
    fix i assume "i < length ?D"
    then have i: "i < length c" by (simp add: whiten_map)
    show "?D ! i = Q ! i" by (simp only: deob_nth [OF i] rel [OF i])
  qed
  moreover have "unchain (whiten c) \<noteq> []"
    using ne by (metis length_unchain length_0_conv whiten_map length_map)
  ultimately show ?thesis
    by (simp add: decode_def Let_def cksum_sum)
qed

lemma decode_relation:
  assumes "decode c = Inr Q"
  shows "c \<noteq> [] \<and> length Q = length c \<and> sum_list (interior Q) = last Q \<and>
         (\<forall>i < length c. Q ! i = (if i = 0 then (c ! 0) XOR 163 else (c ! i) XOR (c ! (i - 1))))"
proof -
  let ?D = "(unchain (whiten c))[0 := (unchain (whiten c) ! 0) XOR 202]"
  from assms have ne: "unchain (whiten c) \<noteq> []" and Q: "Q = ?D"
    and ck: "cksum (interior ?D) = last ?D"
    by (auto simp: decode_def Let_def split: if_splits)
  from ne have "c \<noteq> []" by (auto simp: whiten_def unchain_def)
  moreover have "length Q = length c" by (simp add: Q whiten_map)
  moreover have "sum_list (interior Q) = last Q" using ck by (simp add: Q cksum_sum)
  moreover have "\<forall>i < length c. Q ! i =
      (if i = 0 then (c ! 0) XOR 163 else (c ! i) XOR (c ! (i - 1)))"
    unfolding Q using deob_nth by blast
  ultimately show ?thesis by blast
qed

text \<open>
  Flipping bits of one byte of the wire buffer flips the same bits of two plaintext bytes:
  the one at that position and the next.
\<close>

lemma tamper_relation:
  fixes Q c :: "u8 list"
  assumes len: "length Q = length c" and j: "j < length c"
    and rel: "\<And>i. i < length c \<Longrightarrow>
            Q ! i = (if i = 0 then (c ! 0) XOR 163 else (c ! i) XOR (c ! (i - 1)))"
    and i: "i < length c"
  shows "Q[j := (Q ! j) XOR m, Suc j := (Q ! Suc j) XOR m] ! i =
         (if i = 0 then (c[j := (c ! j) XOR m] ! 0) XOR 163
          else (c[j := (c ! j) XOR m] ! i) XOR (c[j := (c ! j) XOR m] ! (i - 1)))"
proof -
  consider (at) "i = j" | (after) "i = Suc j" | (other) "i \<noteq> j" "i \<noteq> Suc j" by blast
  then show ?thesis
  proof cases
    case at
    then show ?thesis using len j rel [OF j] by (cases "j = 0") (simp_all add: xor3)
  next
    case after
    then show ?thesis using len j i rel [OF i] by (simp add: xor4)
  next
    case other
    then have "i - 1 \<noteq> j \<or> i = 0" by arith
    with other show ?thesis using len i rel [OF i] by auto
  qed
qed

section \<open>The claims\<close>

text \<open>
  C3. The 13-byte status payload \<open>[0x21, 0x60, 0, 0, 99, 101, 0, 0, 0, 0, 0, 1, 0]\<close>
  of a type-129 packet decodes successfully, to power 1 (true), mode heat, fan speed
  high, set temperature 14.5, room temperature 15.5 and power-save 0 (false).
\<close>

theorem C3_status_payload_decodes:
  "PanasonicBLEPacketStatus_init 129 [0x21, 0x60, 0, 0, 99, 101, 0, 0, 0, 0, 0, 1, 0] =
     Inr (PanasonicBLEPacketStatus 129 [0x21, 0x60, 0, 0, 99, 101, 0, 0, 0, 0, 0, 1, 0]
            15.5 1 heat 14.5 high 0) \<and>
   Packet_parse [129, 13, 0x21, 0x60, 0, 0, 99, 101, 0, 0, 0, 0, 0, 1, 0] =
     Inr (PanasonicBLEPacketStatus 129 [0x21, 0x60, 0, 0, 99, 101, 0, 0, 0, 0, 0, 1, 0]
            15.5 1 heat 14.5 high 0, [])"
  by (simp add: Packet_parse_def read1_def read_n_def PanasonicBLEPacketStatus_init_def
      getitem_def andthen_def MODE_of_def FANSPEED_of_def half_degrees_def)

text \<open>
  C5. A packet of type 33 is never decoded: whatever its length byte and payload, the
  call of the outdoor-temperature constructor raises TypeError, so no temperature
  \<open>payload[1] / 10\<close> is ever exposed.
\<close>

theorem C5_outdoor_temp_packet_raises: "Packet_parse (33 # plen # rest) = Inl TypeError"
  by (simp add: Packet_parse_def read1_def read_n_def andthen_def
      PanasonicBLEPacketOutdoorTemp_init_def)

text \<open>
  C6. The session module imports the name \<open>PanasonicBLEFanMode\<close>, which the protocol
  module does not define: the import raises ImportError, and no fan-speed parcel is
  built or written.
\<close>

theorem C6_fan_mode_builder_missing:
  "''PanasonicBLEFanMode'' \<in> set hc_imports \<and>
   ''PanasonicBLEFanMode'' \<notin> set proto_names \<and>
   import_from proto_names hc_imports = Inl ImportError"
  by (simp add: proto_names_def hc_imports_def)

text \<open>
  C7, as stated, fails: buffers of one and of two bytes are encoded, and decoded, without
  an error.
\<close>

theorem C7_short_buffers_counterexample:
  "encode [7] = Inr [163] \<and> decode [163] = Inr [0] \<and> decode [5, 5] = Inr [166, 0]"
  by code_simp

text \<open>
  C7, amended. Only the empty buffer makes encode and decode fail (IndexError). Encode
  returns a buffer for every input of one or two bytes; decode returns data for a
  one-byte buffer exactly when the byte is 0xA3, and for a two-byte buffer exactly when
  the two bytes are equal, and raises the checksum error otherwise.
\<close>

theorem C7_short_buffers:
  "encode [] = Inl IndexError \<and> decode [] = Inl IndexError \<and>
   encode [a] = Inr [163] \<and> encode [a, b] = Inr [a XOR 163, a XOR 163] \<and>
   decode [a] = (if a = 163 then Inr [0] else Inl (ValueError Bad_Checksum)) \<and>
   decode [a, b] = (if a = b then Inr [a XOR 163, 0] else Inl (ValueError Bad_Checksum))"
proof -
  have e0: "encode [] = Inl IndexError" "decode [] = Inl IndexError"
    by (simp_all add: encode_def decode_def whiten_def unchain_def)
  have e1: "encode [a] = Inr [163]"
    by (simp add: encode_def whiten_def chain_def cksum_def interior_def)
  have e2: "encode [a, b] = Inr [a XOR 163, a XOR 163]"
    by (simp add: encode_def whiten_def chain_def chain_step_def cksum_def interior_def
        upt_1_2 upt_0_2 xor.assoc)
  have d1: "decode [a] = (if a = 163 then Inr [0] else Inl (ValueError Bad_Checksum))"
    using xor_eq_0_iff [of a 163]
    by (auto simp add: decode_def whiten_def unchain_def cksum_def interior_def xor_a_163)
  have d2: "decode [a, b] =
      (if a = b then Inr [a XOR 163, 0] else Inl (ValueError Bad_Checksum))"
    using xor_eq_0_iff [of b a]
    by (auto simp add: decode_def whiten_def unchain_def chain_step_def cksum_def
        interior_def upt_1_2 upt_0_2 xor_a_163 xor_105_105)
  from e0 e1 e2 d1 d2 show ?thesis by blast
qed

theorem C7_short_buffers_witness:
  "decode [163] = Inr [0] \<and> decode [164] = Inl (ValueError Bad_Checksum) \<and>
   decode [5, 5] = Inr [166, 0] \<and> decode [5, 6] = Inl (ValueError Bad_Checksum) \<and>
   encode [7, 9] = Inr [164, 164]"
  using C7_short_buffers [of 163 9] C7_short_buffers [of 164 9] C7_short_buffers [of 5 5]
    C7_short_buffers [of 5 6] C7_short_buffers [of 7 9]
  by simp

text \<open>
  C4, as stated, fails: with four bytes in the reader and a length byte of 5, a packet
  with a two-byte payload is returned and no error is raised.
\<close>

theorem C4_short_payload_counterexample: "Packet_parse [66, 5, 1, 2] = Inr (PanasonicBLEPacket 66 [1, 2], [])"
  by (simp add: Packet_parse_def read1_def read_n_def andthen_def)

text \<open>
  C4, amended. Decoding one packet reads the type byte, the length byte \<open>L\<close> and then
  at most \<open>L\<close> payload bytes. It raises IndexError when fewer than two bytes remain.
  Every packet it returns carries the first \<open>min L (remaining - 2)\<close> bytes after the
  header, so the payload has the declared length only if \<open>2 + L\<close> bytes remained; and
  for a type other than 129 and 33 it always returns a packet once two bytes remain,
  also on a truncated payload.
\<close>

theorem C4_packet_parse_reads_at_most:
  "(length fd < 2 \<longrightarrow> Packet_parse fd = Inl IndexError) \<and>
   (\<forall>p fd'. Packet_parse fd = Inr (p, fd') \<longrightarrow>
      2 \<le> length fd \<and> ptype p = uint (fd ! 0) \<and>
      pdata p = take (unat (fd ! 1)) (drop 2 fd) \<and>
      fd' = drop (2 + unat (fd ! 1)) fd \<and>
      length (pdata p) = min (unat (fd ! 1)) (length fd - 2)) \<and>
   (2 \<le> length fd \<and> fd ! 0 \<noteq> 129 \<and> fd ! 0 \<noteq> 33 \<longrightarrow>
      Packet_parse fd =
        Inr (PanasonicBLEPacket (uint (fd ! 0)) (take (unat (fd ! 1)) (drop 2 fd)),
             drop (2 + unat (fd ! 1)) fd))"
proof (intro conjI impI allI)
  assume "length fd < 2"
  then show "Packet_parse fd = Inl IndexError" by (rule Packet_parse_short)
next
  fix p fd' assume ok: "Packet_parse fd = Inr (p, fd')"
  then have "\<not> length fd < 2" using Packet_parse_short [of fd] by auto
  then obtain pt plen rest where fd: "fd = pt # plen # rest"
    by (cases fd; cases "tl fd") auto
  from Packet_parse_Inr [OF ok [unfolded fd]]
  have *: "ptype p = uint pt" "pdata p = take (unat plen) rest" "fd' = drop (unat plen) rest"
    by simp_all
  show "2 \<le> length fd" by (simp add: fd)
  show "ptype p = uint (fd ! 0)" by (simp add: fd *)
  show "pdata p = take (unat (fd ! 1)) (drop 2 fd)" by (simp add: fd *)
  show "fd' = drop (2 + unat (fd ! 1)) fd" by (simp add: fd *)
  show "length (pdata p) = min (unat (fd ! 1)) (length fd - 2)"
    by (simp add: fd * min.commute)
next
  assume a: "2 \<le> length fd \<and> fd ! 0 \<noteq> 129 \<and> fd ! 0 \<noteq> 33"
  then obtain pt plen rest where fd: "fd = pt # plen # rest"
    by (cases fd; cases "tl fd") auto
  with a show "Packet_parse fd =
        Inr (PanasonicBLEPacket (uint (fd ! 0)) (take (unat (fd ! 1)) (drop 2 fd)),
             drop (2 + unat (fd ! 1)) fd)"
    by (simp add: Packet_parse_generic)
qed

theorem C4_packet_parse_reads_at_most_witness:
  "Packet_parse [66] = Inl IndexError \<and>
   Packet_parse [66, 2, 1, 2, 3] = Inr (PanasonicBLEPacket 66 [1, 2], [3]) \<and>
   Packet_parse [66, 5, 1, 2] = Inr (PanasonicBLEPacket 66 [1, 2], []) \<and>
   length (pdata (PanasonicBLEPacket 66 [1, 2])) = min (unat (5 :: u8)) (length [66, 5, 1, 2 :: u8] - 2)"
  using C4_packet_parse_reads_at_most [of "[66]"] C4_packet_parse_reads_at_most [of "[66, 2, 1, 2, 3]"] C4_packet_parse_reads_at_most [of "[66, 5, 1, 2]"]
  by simp

text \<open>
  C10. With at most 255 packets the header written by parcel encode ends in a count
  byte whose value is the exact number of packets, every buffer encode returns
  deobfuscates to a plaintext with that byte at offset 4, and encode does return a
  buffer when each packet fits its own type and length bytes. With more than 255
  packets encode raises OverflowError.
\<close>

theorem C10_packet_count_byte:
  "(length (packets p) \<le> 255 \<longrightarrow>
      Parcel_header p = Inr [0x11, word_of_int (COMPONENT_value (src p)),
        word_of_int (COMPONENT_value (dst p)), word_of_int (OPERATION_value (op p)),
        of_nat (length (packets p))] \<and>
      unat (of_nat (length (packets p)) :: u8) = length (packets p) \<and>
      (\<forall>wire. Parcel_encode p = Inr wire \<longrightarrow>
         (\<exists>plain. decode wire = Inr plain \<and> 6 \<le> length plain \<and>
            unat (plain ! 4) = length (packets p))) \<and>
      (list_all (\<lambda>q. 0 \<le> ptype q \<and> ptype q \<le> 255 \<and> length (pdata q) \<le> 255) (packets p) \<longrightarrow>
         (\<exists>wire. Parcel_encode p = Inr wire))) \<and>
   (255 < length (packets p) \<longrightarrow> Parcel_encode p = Inl OverflowError)"
proof (intro conjI impI allI)
  assume le: "length (packets p) \<le> 255"
  show h: "Parcel_header p = Inr [0x11, word_of_int (COMPONENT_value (src p)),
        word_of_int (COMPONENT_value (dst p)), word_of_int (OPERATION_value (op p)),
        of_nat (length (packets p))]"
    using le by (rule Parcel_header_ok)
  show "unat (of_nat (length (packets p)) :: u8) = length (packets p)"
    using le by (rule unat_count)
  {
    fix wire assume w: "Parcel_encode p = Inr wire"
    then obtain body where plain: "Parcel_plain p = Inr ([0x11, word_of_int (COMPONENT_value (src p)),
        word_of_int (COMPONENT_value (dst p)), word_of_int (OPERATION_value (op p)),
        of_nat (length (packets p))] @ body @ [0])" (is "_ = Inr ?P")
      by (auto simp: Parcel_encode_def Parcel_plain_def h andthen_def split: sum.splits)
    with w have e: "encode ?P = Inr wire" by (simp add: Parcel_encode_def andthen_def)
    have "decode wire = Inr (?P[length ?P - 1 := cksum (interior ?P)])"
      by (rule decode_encode [OF _ e]) simp
    moreover have "(?P[length ?P - 1 := cksum (interior ?P)]) ! 4 = of_nat (length (packets p))"
      by simp
    ultimately show "\<exists>plain. decode wire = Inr plain \<and> 6 \<le> length plain \<and>
            unat (plain ! 4) = length (packets p)"
      using le by (simp add: unat_count)
  }
  {
    assume "list_all (\<lambda>q. 0 \<le> ptype q \<and> ptype q \<le> 255 \<and> length (pdata q) \<le> 255) (packets p)"
    then have "\<exists>P. Parcel_plain p = Inr P \<and> P \<noteq> []"
      by (simp add: Parcel_plain_def h andthen_def encode_packets_ok)
    then show "\<exists>wire. Parcel_encode p = Inr wire"
      using encode_Inr by (fastforce simp: Parcel_encode_def andthen_def)
  }
next
  assume "255 < length (packets p)"
  then show "Parcel_encode p = Inl OverflowError"
    by (simp add: Parcel_encode_def Parcel_plain_def Parcel_header_overflow andthen_def)
qed

theorem C10_packet_count_byte_witness:
  "Parcel_header \<lparr>src = APP, dst = I_UNIT1, op = REQ, packets = [PanasonicBLEPacket 129 [4, 0, 14]]\<rparr>
     = Inr [17, 249, 1, 2, 1] \<and>
   Parcel_encode \<lparr>src = APP, dst = I_UNIT1, op = REQ, packets = [PanasonicBLEPacket 129 [4, 0, 14]]\<rparr>
     = Inr [178, 75, 74, 72, 73, 200, 203, 207, 207, 193, 82] \<and>
   decode [178, 75, 74, 72, 73, 200, 203, 207, 207, 193, 82]
     = Inr [17, 249, 1, 2, 1, 129, 3, 4, 0, 14, 147] \<and>
   Parcel_encode \<lparr>src = APP, dst = I_UNIT1, op = SET,
                  packets = replicate 256 (PanasonicBLEPacket 65 [3])\<rparr> = Inl OverflowError"
proof -
  have "Parcel_encode \<lparr>src = APP, dst = I_UNIT1, op = REQ, packets = [PanasonicBLEPacket 129 [4, 0, 14]]\<rparr>
     = Inr [178, 75, 74, 72, 73, 200, 203, 207, 207, 193, 82]"
    by code_simp
  moreover have "decode [178, 75, 74, 72, 73, 200, 203, 207, 207, 193, 82]
     = Inr [17, 249, 1, 2, 1, 129, 3, 4, 0, 14, 147]"
    by code_simp
  ultimately show ?thesis
    using C10_packet_count_byte [of "\<lparr>src = APP, dst = I_UNIT1, op = REQ, packets = [PanasonicBLEPacket 129 [4, 0, 14]]\<rparr>"]
      C10_packet_count_byte [of "\<lparr>src = APP, dst = I_UNIT1, op = SET,
                  packets = replicate 256 (PanasonicBLEPacket 65 [3])\<rparr>"]
    by simp
qed









text \<open>
  C2, as stated, fails: flipping the top bit of the first payload byte of an encoded
  status request is not detected, and decode returns data.
\<close>

theorem C2_top_bit_flip_counterexample:
  "encode [17, 249, 1, 2, 1, 129, 3, 4, 0, 14, 0] =
     Inr [178, 75, 74, 72, 73, 200, 203, 207, 207, 193, 82] \<and>
   decode ([178, 75, 74, 72, 73, 200, 203, 207, 207, 193, 82][7 := 207 XOR 2 ^ 7]) =
     Inr [17, 249, 1, 2, 1, 129, 3, 132, 128, 14, 147]"
  by code_simp

text \<open>
  C2, amended. Let \<open>P\<close> be a plaintext buffer of at least 3 bytes, \<open>c\<close> its encoding,
  and flip bit \<open>k\<close> of byte \<open>j\<close> of \<open>c\<close>. Decode raises the checksum error exactly
  when \<open>j\<close> is the sync byte or the checksum byte, or \<open>k < 7\<close> and: for the byte before
  the checksum, bit \<open>k\<close> of that plaintext byte differs from bit \<open>k\<close> of the checksum;
  for any other interior byte, bit \<open>k\<close> of the plaintext bytes \<open>j\<close> and \<open>j + 1\<close>
  agree. In every other case, among them each flip of bit 7 of an interior byte, decode
  returns the plaintext with bit \<open>k\<close> of bytes \<open>j\<close> and \<open>j + 1\<close> flipped.
\<close>

theorem C2_single_bit_flip:
  assumes n: "3 \<le> length P" and enc: "encode P = Inr c" and j: "j < length P" and k: "k < 8"
  shows "decode (c[j := (c ! j) XOR 2 ^ k]) =
         (if j = 0 \<or> j = length P - 1 \<or>
             (k < 7 \<and> (if j = length P - 2
                        then bit (P ! j) k \<noteq> bit (cksum (interior P)) k
                        else bit (P ! j) k = bit (P ! (j + 1)) k))
          then Inl (ValueError Bad_Checksum)
          else Inr ((P[length P - 1 := cksum (interior P)])
                     [j := (P[length P - 1 := cksum (interior P)] ! j) XOR 2 ^ k,
                      Suc j := (P[length P - 1 := cksum (interior P)] ! Suc j) XOR 2 ^ k]))"
proof -
  define Q where "Q = P[length P - 1 := cksum (interior P)]"
  define m :: u8 where "m = 2 ^ k"
  define Q' where "Q' = Q[j := (Q ! j) XOR m, Suc j := (Q ! Suc j) XOR m]"
  define S where "S = sum_list (interior Q)"
  have Pne: "P \<noteq> []" using n by auto
  have dec: "decode c = Inr Q" unfolding Q_def by (rule decode_encode [OF Pne enc])
  from decode_relation [OF dec]
  have cne: "c \<noteq> []" and len: "length Q = length c" and ck: "S = last Q"
    and rel: "\<And>i. i < length c \<Longrightarrow>
            Q ! i = (if i = 0 then (c ! 0) XOR 163 else (c ! i) XOR (c ! (i - 1)))"
    by (simp_all add: S_def)
  have lenQ: "length Q = length P" by (simp add: Q_def)
  have jc: "j < length c" using j len lenQ by simp
  have QP: "\<And>i. i < length P - 1 \<Longrightarrow> Q ! i = P ! i" by (simp add: Q_def)
  have SP: "S = cksum (interior P)"
    unfolding S_def Q_def by (simp only: interior_update_last cksum_sum)
  have Qlast: "Q ! (length P - 1) = S" using Pne by (simp add: Q_def SP)
  have lastQ: "last Q = S" by (simp add: ck)
  have step: "decode (c[j := (c ! j) XOR m]) =
      (if sum_list (interior Q') \<noteq> last Q' then Inl (ValueError Bad_Checksum) else Inr Q')"
  proof (rule decode_by_relation)
    show "c[j := (c ! j) XOR m] \<noteq> []" using cne by simp
    show "length Q' = length (c[j := (c ! j) XOR m])" by (simp add: Q'_def len)
    fix i assume "i < length (c[j := (c ! j) XOR m])"
    then have i: "i < length c" by simp
    show "Q' ! i = (if i = 0 then (c[j := (c ! j) XOR m] ! 0) XOR 163
          else (c[j := (c ! j) XOR m] ! i) XOR (c[j := (c ! j) XOR m] ! (i - 1)))"
      unfolding Q'_def by (rule tamper_relation [OF len jc rel i])
  qed
  have Qne: "Q \<noteq> []" using Pne by (simp add: Q_def)
  have Q'ne: "Q' \<noteq> []" using Pne lenQ by (auto simp: Q'_def)
  have lenQ': "length Q' = length P" by (simp add: Q'_def lenQ)
  consider (first) "j = 0" | (last) "j = length P - 1" | (before_last) "j = length P - 2" "j \<noteq> 0"
    | (inner) "1 \<le> j" "j < length P - 2"
    using j by arith
  then have "sum_list (interior Q') \<noteq> last Q' \<longleftrightarrow>
      (j = 0 \<or> j = length P - 1 \<or>
             (k < 7 \<and> (if j = length P - 2
                        then bit (P ! j) k \<noteq> bit (cksum (interior P)) k
                        else bit (P ! j) k = bit (P ! (j + 1)) k)))"
  proof cases
    case first
    have "interior Q' = (interior Q)[0 := (Q ! 1) XOR m]"
      by (simp add: Q'_def first interior_update_Suc interior_update_0)
    then have "sum_list (interior Q') = S - Q ! 1 + ((Q ! 1) XOR m)"
      using n lenQ by (simp add: sum_list_update_u8 interior_nth S_def)
    moreover have "0 \<noteq> length Q - 1" "Suc 0 \<noteq> length Q - 1" using n lenQ by arith+
    then have "last Q' = S"
      using Q'ne lastQ unfolding Q'_def first
      by (simp add: last_list_update)
    ultimately show ?thesis
      using first flip_one_sum [OF k, of S "Q ! 1"] by (simp add: m_def)
  next
    case last
    have "length Q \<le> Suc j" using last lenQ by simp
    then have "Q' = Q[j := (Q ! j) XOR m]"
      unfolding Q'_def by (simp add: list_update_beyond)
    then have Q': "Q' = Q[length Q - 1 := S XOR m]"
      using Qlast lenQ by (simp add: last)
    have "interior Q' = interior Q" unfolding Q' by (rule interior_update_last)
    moreover have "last Q' = S XOR m"
      unfolding Q' using Qne by (simp add: last_list_update)
    ultimately show ?thesis
      using last flip_changes [OF k, of S] by (simp add: S_def m_def)
  next
    case before_last
    obtain j0 where j0: "j = Suc j0" using before_last(2) not0_implies_Suc by blast
    have Sj: "Suc j = length Q - 1" using before_last n lenQ by simp
    let ?Q1 = "Q[j := (Q ! j) XOR m]"
    have "Q ! Suc j = S" using Sj Qlast lenQ by simp
    then have "Q' = ?Q1[length ?Q1 - 1 := S XOR m]"
      using Sj by (simp add: Q'_def)
    then have "interior Q' = interior ?Q1" by (simp only: interior_update_last)
    then have iq: "interior Q' = (interior Q)[j0 := (Q ! j) XOR m]"
      by (simp add: j0 interior_update_Suc)
    have "j0 < length Q - 2" using before_last n lenQ j0 by simp
    then have "sum_list (interior Q') = S - Q ! j + ((Q ! j) XOR m)"
      by (simp add: iq sum_list_update_u8 interior_nth S_def j0)
    moreover have "last Q' = S XOR m"
      using Q'ne Sj Qlast lenQ unfolding Q'_def
      by (simp add: last_list_update)
    moreover have "Q ! j = P ! j" using before_last n by (simp add: QP)
    moreover have "j \<noteq> length P - 1" using before_last n by arith
    ultimately show ?thesis
      using before_last flip_sum_vs_last [OF k, of S "P ! j"]
      by (simp add: m_def SP)
  next
    case inner
    obtain j0 where j0: "j = Suc j0" using inner(1) by (cases j) auto
    have iq: "interior Q' = (interior Q)[j0 := (Q ! j) XOR m, Suc j0 := (Q ! Suc j) XOR m]"
      by (simp add: Q'_def j0 interior_update_Suc)
    have b: "Suc j0 < length Q - 2" using inner lenQ j0 by simp
    then have "sum_list (interior Q') = S - Q ! j + ((Q ! j) XOR m) - Q ! Suc j + ((Q ! Suc j) XOR m)"
      by (simp add: iq sum_list_update_u8 interior_nth S_def j0)
    moreover have "j \<noteq> length Q - 1" "Suc j \<noteq> length Q - 1" using inner lenQ by arith+
    then have "last Q' = S"
      using Q'ne lastQ unfolding Q'_def
      by (simp add: last_list_update)
    moreover have "Q ! j = P ! j" "Q ! Suc j = P ! Suc j" using inner by (simp_all add: QP)
    moreover have "j \<noteq> length P - 1" "j \<noteq> length P - 2" "j \<noteq> 0"
      using inner by arith+
    ultimately show ?thesis
      using flip_two_sum [OF k, of S "P ! j" "P ! Suc j"]
      by (simp add: m_def)
  qed
  with step show ?thesis
    by (simp add: Q'_def Q_def m_def)
qed

theorem C2_single_bit_flip_witness:
  "decode ([178, 75, 74, 72, 73, 200, 203, 207, 207, 193, 82]
            [7 := ([178, 75, 74, 72, 73, 200, 203, 207, 207, 193, 82] ! 7) XOR 2 ^ 7]) =
     Inr [17, 249, 1, 2, 1, 129, 3, 132, 128, 14, 147] \<and>
   decode ([178, 75, 74, 72, 73, 200, 203, 207, 207, 193, 82]
            [7 := ([178, 75, 74, 72, 73, 200, 203, 207, 207, 193, 82] ! 7) XOR 2 ^ 0]) =
     Inl (ValueError Bad_Checksum) \<and>
   decode ([178, 75, 74, 72, 73, 200, 203, 207, 207, 193, 82]
            [10 := ([178, 75, 74, 72, 73, 200, 203, 207, 207, 193, 82] ! 10) XOR 2 ^ 3]) =
     Inl (ValueError Bad_Checksum)"
proof -
  let ?P = "[17, 249, 1, 2, 1, 129, 3, 4, 0, 14, 0] :: u8 list"
  let ?c = "[178, 75, 74, 72, 73, 200, 203, 207, 207, 193, 82] :: u8 list"
  have e: "encode ?P = Inr ?c" by code_simp
  have n: "3 \<le> length ?P" by simp
  have j7: "7 < length ?P" and j10: "10 < length ?P" by simp_all
  have k: "(7::nat) < 8" "(0::nat) < 8" "(3::nat) < 8" by simp_all
  have ck: "cksum (interior ?P) = 147" by code_simp
  from C2_single_bit_flip [OF n e j7 k(1)] C2_single_bit_flip [OF n e j7 k(2)] C2_single_bit_flip [OF n e j10 k(3)]
  show ?thesis by (simp add: ck)
qed

end
